theory Spec2Isabelle
  imports Complex_Main "HOL-Library.Multiset"
begin

section \<open>The data model\<close>

text \<open>
  The engine of \<^verbatim>\<open>src/dbscan.py\<close>: the classes \<open>Cluster\<close> and \<open>DBSCAN\<close> with
  \<open>__init__\<close>, \<open>__regionQuery\<close>, \<open>__expandCluster\<close> and \<open>run\<close>. Objects are records,
  methods take the engine and return it, and the loops are recursive functions. The
  code raises no exception of its own, so the functions return plain values.
\<close>

text \<open>
  A point is the Python tuple \<open>(<string id>, <float x>, <float y>)\<close>; Python compares
  tuples field by field, which is HOL's equality on triples. Coordinates are modelled as
  real numbers: rounding, overflow, infinities and NaN of the float type are outside the
  model.
\<close>

type_synonym point = "string \<times> real \<times> real"

text \<open>
  \<open>class Cluster\<close>: an id and a list of points. The class attribute \<open>Cluster.cid\<close> is a
  counter shared by all clusters of the process; the constructor reads it and increments
  it, so the model passes it in and returns it.
\<close>

record cluster =
  cid :: int
  pts :: "point list"

definition Cluster_init :: "int \<Rightarrow> cluster \<times> int" where
  "Cluster_init g = (\<lparr>cid = g, pts = []\<rparr>, g + 1)"

definition addPoint :: "cluster \<Rightarrow> point \<Rightarrow> cluster" where
  "addPoint c p = c\<lparr>pts := pts c @ [p]\<rparr>"

text \<open>\<open>class DBSCAN\<close>: the fields set by \<open>__init__\<close>, in its order.\<close>

record dbscan =
  D :: "point list"
  minPts :: int
  eps :: real
  Clusters :: "cluster list"
  NOISE :: "point list"
  visited :: "point list"

definition DBSCAN_init :: "point list \<Rightarrow> real \<Rightarrow> int \<Rightarrow> dbscan" where
  "DBSCAN_init ds e m =
     \<lparr>D = ds, minPts = m, eps = e * e, Clusters = [], NOISE = [], visited = []\<rparr>"

section \<open>The region query\<close>

text \<open>
  \<open>__regionQuery\<close>: the list comprehension over \<open>self.D\<close>, compared with the stored
  (already squared) \<open>self.eps\<close>.
\<close>

definition regionQuery :: "dbscan \<Rightarrow> point \<Rightarrow> point list" where
  "regionQuery s pt =
     [p \<leftarrow> D s. (fst (snd p) - fst (snd pt))\<^sup>2 + (snd (snd p) - snd (snd pt))\<^sup>2 \<le> eps s]"

section \<open>Cluster expansion\<close>

text \<open>
  The inner loop \<open>for n in NewNeighborhoodPts: if n not in NeighborhoodPts: append\<close>.
\<close>

fun extendNeighborhoodPts :: "point list \<Rightarrow> point list \<Rightarrow> point list" where
  "extendNeighborhoodPts [] nbrs = nbrs"
| "extendNeighborhoodPts (n # ns) nbrs =
     extendNeighborhoodPts ns (if n \<notin> set nbrs then nbrs @ [n] else nbrs)"

text \<open>
  The loop \<open>for cluster in Clusters\<close> at the end of each iteration. The cluster \<open>C\<close> is an
  object that is also an element of \<open>self.Clusters\<close>; the model names it by its index
  \<open>ci\<close> in the list. The first argument is the part of the list still to be scanned, the
  last one the cluster list itself; the list is only changed at the \<open>break\<close>.
\<close>

fun checkClusters :: "point \<Rightarrow> nat \<Rightarrow> cluster list \<Rightarrow> cluster list \<Rightarrow> cluster list" where
  "checkClusters p ci [] cs = cs"
| "checkClusters p ci (K # Ks) cs =
     (if p \<notin> set (pts K) then
        (if p \<notin> set (pts (cs ! ci)) then cs[ci := addPoint (cs ! ci) p]
         else checkClusters p ci Ks cs)
      else checkClusters p ci Ks cs)"

text \<open>
  One iteration of \<open>for p in NeighborhoodPts\<close> in \<open>__expandCluster\<close>, at position \<open>i\<close> of the
  list: it returns the neighbour list, which it may have extended, and the engine.
\<close>

definition expand_step :: "nat \<Rightarrow> point list \<Rightarrow> nat \<Rightarrow> dbscan \<Rightarrow> point list \<times> dbscan" where
  "expand_step i nbrs ci s =
     (let p = nbrs ! i;
          (nbrs1, s1) =
            (if p \<notin> set (visited s) then
               (let s' = s\<lparr>visited := visited s @ [p]\<rparr>;
                    NewNeighborhoodPts = regionQuery s' p
                in if int (length NewNeighborhoodPts) \<ge> minPts s'
                   then (extendNeighborhoodPts NewNeighborhoodPts nbrs, s')
                   else (nbrs, s'))
             else (nbrs, s))
      in (nbrs1, s1\<lparr>Clusters := checkClusters p ci (Clusters s1) (Clusters s1)\<rparr>))"

lemma extendNeighborhoodPts_length: "length nbrs \<le> length (extendNeighborhoodPts ns nbrs)"
proof (induction ns arbitrary: nbrs)
  case Nil
  show ?case by simp
next
  case (Cons n ns)
  have "length nbrs \<le> length (if n \<notin> set nbrs then nbrs @ [n] else nbrs)" by simp
  also have "\<dots> \<le> length (extendNeighborhoodPts (n # ns) nbrs)"
    using Cons.IH by simp
  finally show ?case .
qed

lemma regionQuery_subset: "set (regionQuery s pt) \<subseteq> set (D s)"
  by (simp add: regionQuery_def)

lemma regionQuery_update [simp]:
  "regionQuery (s\<lparr>visited := v\<rparr>) = regionQuery s"
  "regionQuery (s\<lparr>Clusters := cs\<rparr>) = regionQuery s"
  "regionQuery (s\<lparr>NOISE := ns\<rparr>) = regionQuery s"
  by (simp_all add: regionQuery_def fun_eq_iff)

lemma extend_measure:
  "set ns \<subseteq> set ds \<Longrightarrow>
   card (set ds - set (extendNeighborhoodPts ns nbrs)) + length (extendNeighborhoodPts ns nbrs)
     = card (set ds - set nbrs) + length nbrs"
proof (induction ns arbitrary: nbrs)
  case Nil
  show ?case by simp
next
  case (Cons n ns)
  show ?case
  proof (cases "n \<in> set nbrs")
    case True
    with Cons show ?thesis by simp
  next
    case False
    from Cons.prems have nD: "n \<in> set ds" and sub: "set ns \<subseteq> set ds" by simp_all
    have mem: "n \<in> set ds - set nbrs" using nD False by simp
    have fin: "finite (set ds - set nbrs)" by simp
    have "Suc (card (set ds - set nbrs - {n})) = card (set ds - set nbrs)"
      using fin mem by (rule card_Suc_Diff1)
    moreover have "set ds - set (nbrs @ [n]) = set ds - set nbrs - {n}" by auto
    ultimately have "card (set ds - set (nbrs @ [n])) + length (nbrs @ [n])
        = card (set ds - set nbrs) + length nbrs" by simp
    with Cons.IH [OF sub, of "nbrs @ [n]"] False show ?thesis by simp
  qed
qed

lemma expand_step_D: "D (snd (expand_step i nbrs ci s)) = D s"
  by (simp add: expand_step_def Let_def split: prod.splits if_splits)

lemma expand_step_measure:
  "card (set (D s) - set (fst (expand_step i nbrs ci s))) + length (fst (expand_step i nbrs ci s))
     = card (set (D s) - set nbrs) + length nbrs"
  by (simp add: expand_step_def Let_def extend_measure regionQuery_subset)

lemma expand_step_length: "length nbrs \<le> length (fst (expand_step i nbrs ci s))"
  by (simp add: expand_step_def Let_def extendNeighborhoodPts_length)

text \<open>
  The loop \<open>for p in NeighborhoodPts\<close>: Python's list iterator keeps an index and reads the
  length of the list again at every step, so elements appended during the loop are
  visited by it. The loop returns the final neighbour list with the engine.
\<close>

function expand_loop :: "nat \<Rightarrow> point list \<Rightarrow> nat \<Rightarrow> dbscan \<Rightarrow> point list \<times> dbscan" where
  "expand_loop i nbrs ci s =
     (if i < length nbrs then
        expand_loop (Suc i) (fst (expand_step i nbrs ci s)) ci (snd (expand_step i nbrs ci s))
      else (nbrs, s))"
  by pat_completeness auto
termination
proof (relation "measure (\<lambda>(i, nbrs, ci, s). card (set (D s) - set nbrs) + length nbrs - i)")
  show "wf (measure (\<lambda>(i, nbrs, ci, s). card (set (D s) - set nbrs) + length nbrs - i))"
    by simp
next
  fix i :: nat and nbrs :: "point list" and ci :: nat and s :: dbscan
  assume lt: "i < length nbrs"
  let ?r = "expand_step i nbrs ci s"
  have "card (set (D s) - set (fst ?r)) + length (fst ?r) - Suc i
      < card (set (D s) - set nbrs) + length nbrs - i"
    using lt by (simp add: expand_step_measure)
  then show "((Suc i, fst ?r, ci, snd ?r), (i, nbrs, ci, s))
      \<in> measure (\<lambda>(i, nbrs, ci, s). card (set (D s) - set nbrs) + length nbrs - i)"
    by (simp add: expand_step_D)
qed

text \<open>
  \<open>__expandCluster\<close>: \<open>C.addPoint(pt)\<close>, then the loop over the growing list.
\<close>

definition expandCluster :: "point \<Rightarrow> point list \<Rightarrow> nat \<Rightarrow> dbscan \<Rightarrow> point list \<times> dbscan" where
  "expandCluster pt NeighborhoodPts ci s =
     expand_loop 0 NeighborhoodPts ci
       (s\<lparr>Clusters := (Clusters s)[ci := addPoint (Clusters s ! ci) pt]\<rparr>)"

section \<open>The scan\<close>

text \<open>
  One iteration of \<open>for pt in self.D\<close> in \<open>run\<close>. The state is the class counter
  \<open>Cluster.cid\<close> together with the engine. The new cluster is appended to
  \<open>self.Clusters\<close> before the expansion, so its index is the former length of the list.
\<close>

definition run_step :: "point \<Rightarrow> int \<times> dbscan \<Rightarrow> int \<times> dbscan" where
  "run_step pt gs =
     (case gs of (g, s) \<Rightarrow>
        if pt \<notin> set (visited s) then
          (let s1 = s\<lparr>visited := visited s @ [pt]\<rparr>;
               NeighborhoodPts = regionQuery s1 pt
           in if int (length NeighborhoodPts) < minPts s1
              then (g, s1\<lparr>NOISE := NOISE s1 @ [pt]\<rparr>)
              else (case Cluster_init g of (C, g') \<Rightarrow>
                      (g', snd (expandCluster pt NeighborhoodPts (length (Clusters s1))
                                  (s1\<lparr>Clusters := Clusters s1 @ [C]\<rparr>)))))
        else (g, s))"

fun run_loop :: "point list \<Rightarrow> int \<times> dbscan \<Rightarrow> int \<times> dbscan" where
  "run_loop [] gs = gs"
| "run_loop (pt # rest) gs = run_loop rest (run_step pt gs)"

text \<open>
  \<open>run\<close> scans \<open>self.D\<close> and returns \<open>(self.Clusters, self.NOISE)\<close>; \<open>run_state\<close> is the
  counter and the engine it leaves behind.
\<close>

definition run_state :: "int \<Rightarrow> dbscan \<Rightarrow> int \<times> dbscan" where
  "run_state g s = run_loop (D s) (g, s)"

definition run :: "int \<Rightarrow> dbscan \<Rightarrow> cluster list \<times> point list" where
  "run g s = (Clusters (snd (run_state g s)), NOISE (snd (run_state g s)))"

declare expand_loop.simps [simp del]

section \<open>The engine with a budget of iterations\<close>

text \<open>
  The expansion loop with a budget of iterations: \<open>None\<close> when the budget is used up
  before the loop is through.
\<close>

fun expand_fuel ::
  "nat \<Rightarrow> nat \<Rightarrow> point list \<Rightarrow> nat \<Rightarrow> dbscan \<Rightarrow> (point list \<times> dbscan) option" where
  "expand_fuel 0 i nbrs ci s = (if i < length nbrs then None else Some (nbrs, s))"
| "expand_fuel (Suc n) i nbrs ci s =
     (if i < length nbrs then
        expand_fuel n (Suc i) (fst (expand_step i nbrs ci s)) ci (snd (expand_step i nbrs ci s))
      else Some (nbrs, s))"

text \<open>
  \<open>__expandCluster\<close>, one scan step, the scan and \<open>run\<close> with the same budget \<open>n\<close> for
  every expansion loop. The scan itself is a \<open>for\<close> loop over \<open>self.D\<close>, which nothing
  changes, and needs no budget.
\<close>

definition expandCluster_fuel ::
  "nat \<Rightarrow> point \<Rightarrow> point list \<Rightarrow> nat \<Rightarrow> dbscan \<Rightarrow> (point list \<times> dbscan) option" where
  "expandCluster_fuel n pt NeighborhoodPts ci s =
     expand_fuel n 0 NeighborhoodPts ci
       (s\<lparr>Clusters := (Clusters s)[ci := addPoint (Clusters s ! ci) pt]\<rparr>)"

definition run_step_fuel :: "nat \<Rightarrow> point \<Rightarrow> int \<times> dbscan \<Rightarrow> (int \<times> dbscan) option" where
  "run_step_fuel n pt gs =
     (case gs of (g, s) \<Rightarrow>
        if pt \<notin> set (visited s) then
          (let s1 = s\<lparr>visited := visited s @ [pt]\<rparr>;
               NeighborhoodPts = regionQuery s1 pt
           in if int (length NeighborhoodPts) < minPts s1
              then Some (g, s1\<lparr>NOISE := NOISE s1 @ [pt]\<rparr>)
              else (case Cluster_init g of (C, g') \<Rightarrow>
                      (case expandCluster_fuel n pt NeighborhoodPts (length (Clusters s1))
                              (s1\<lparr>Clusters := Clusters s1 @ [C]\<rparr>) of
                         None \<Rightarrow> None
                       | Some r \<Rightarrow> Some (g', snd r))))
        else Some (g, s))"

fun run_loop_fuel :: "nat \<Rightarrow> point list \<Rightarrow> int \<times> dbscan \<Rightarrow> (int \<times> dbscan) option" where
  "run_loop_fuel n [] gs = Some gs"
| "run_loop_fuel n (pt # rest) gs =
     (case run_step_fuel n pt gs of None \<Rightarrow> None | Some gs' \<Rightarrow> run_loop_fuel n rest gs')"

definition run_fuel :: "nat \<Rightarrow> int \<Rightarrow> dbscan \<Rightarrow> (cluster list \<times> point list) option" where
  "run_fuel n g s =
     (case run_loop_fuel n (D s) (g, s) of
        None \<Rightarrow> None
      | Some gs \<Rightarrow> Some (Clusters (snd gs), NOISE (snd gs)))"

section \<open>The region query in the words of the specification\<close>



section \<open>Invariants and relations used in the proofs\<close>

text \<open>
  The points held by the clusters, and the invariant of the scan: the visited list and the
  noise list have no duplicates, no cluster has a duplicate member, every visited point
  is a point of the dataset, and the visited points are the noise points together with
  the clustered points.
\<close>

definition clustered :: "dbscan \<Rightarrow> point set" where
  "clustered s = (\<Union>c \<in> set (Clusters s). set (pts c))"

definition consistent :: "dbscan \<Rightarrow> bool" where
  "consistent s \<longleftrightarrow>
     distinct (visited s) \<and> distinct (NOISE s) \<and> set (visited s) \<subseteq> set (D s) \<and>
     set (visited s) = set (NOISE s) \<union> clustered s \<and>
     (\<forall>c \<in> set (Clusters s). distinct (pts c))"

text \<open>
  The engine at the start of the expansion loop for a new core point \<open>pt\<close>: \<open>pt\<close> is
  visited, and the new cluster, with id \<open>g\<close> and the single member \<open>pt\<close>, is the last
  one of the cluster list.
\<close>

definition seeded :: "int \<Rightarrow> point \<Rightarrow> dbscan \<Rightarrow> dbscan" where
  "seeded g pt s =
     s\<lparr>visited := visited s @ [pt], Clusters := Clusters s @ [\<lparr>cid = g, pts = [pt]\<rparr>]\<rparr>"

text \<open>
  The cluster list \<open>cs\<close> is the list \<open>old\<close> of \<open>n\<close> clusters followed by one cluster with id
  \<open>g\<close> whose first member is \<open>pt\<close>.
\<close>

definition new_cluster_at :: "nat \<Rightarrow> int \<Rightarrow> point \<Rightarrow> cluster list \<Rightarrow> cluster list \<Rightarrow> bool" where
  "new_cluster_at n g pt old cs \<longleftrightarrow>
     length cs = Suc n \<and> take n cs = old \<and> cid (cs ! n) = g \<and>
     pts (cs ! n) \<noteq> [] \<and> hd (pts (cs ! n)) = pt"

text \<open>The engine with every cluster id set to \<open>0\<close>: what is left when the ids are ignored.\<close>

definition forget_cid :: "cluster \<Rightarrow> cluster" where
  "forget_cid c = c\<lparr>cid := 0\<rparr>"

definition forget_ids :: "dbscan \<Rightarrow> dbscan" where
  "forget_ids s = s\<lparr>Clusters := map forget_cid (Clusters s)\<rparr>"

text \<open>
  The cluster ids are \<open>g0\<close>, \<open>g0 + 1\<close>, ... in list order, and the counter is the next
  free id.
\<close>

definition ids_from :: "int \<Rightarrow> int \<times> dbscan \<Rightarrow> bool" where
  "ids_from g0 gs \<longleftrightarrow>
     map cid (Clusters (snd gs)) = map (\<lambda>k. g0 + int k) [0..<length (Clusters (snd gs))] \<and>
     fst gs = g0 + int (length (Clusters (snd gs)))"

text \<open>
  A core point of an engine is a point whose region holds at least \<open>minPts\<close> points. A
  set of points is closed when it contains the region of each of its core points.
\<close>

definition core :: "dbscan \<Rightarrow> point \<Rightarrow> bool" where
  "core s q \<longleftrightarrow> minPts s \<le> int (length (regionQuery s q))"

definition region_closed :: "dbscan \<Rightarrow> point set \<Rightarrow> bool" where
  "region_closed s W \<longleftrightarrow> (\<forall>q \<in> W. core s q \<longrightarrow> set (regionQuery s q) \<subseteq> W)"

text \<open>
  During an expansion the region of every visited core point lies in the visited points
  and the neighbour list, and the neighbours the loop has passed are visited.
\<close>

definition expanding :: "nat \<Rightarrow> point list \<Rightarrow> dbscan \<Rightarrow> bool" where
  "expanding i nbrs s \<longleftrightarrow>
     (\<forall>q \<in> set (visited s). core s q \<longrightarrow> set (regionQuery s q) \<subseteq> set (visited s) \<union> set nbrs) \<and>
     set (take i nbrs) \<subseteq> set (visited s)"

text \<open>
  Two engines on the same dataset with the same \<open>minPts\<close>, the first with the smaller
  threshold, scanned side by side: the second has visited at least the points of the
  first, and its noise points are noise points of the first.
\<close>

definition coupled :: "dbscan \<Rightarrow> dbscan \<Rightarrow> bool" where
  "coupled s1 s2 \<longleftrightarrow>
     D s1 = D s2 \<and> minPts s1 = minPts s2 \<and> eps s1 \<le> eps s2 \<and>
     set (visited s1) \<subseteq> set (visited s2) \<and> set (NOISE s2) \<subseteq> set (NOISE s1) \<and>
     region_closed s2 (set (visited s2))"

section \<open>Example datasets\<close>

text \<open>
  Three points on a line at distance \<open>1\<close>, the engine for them after its first scan step
  (with \<open>eps = 1\<close> and \<open>minPts = 3\<close>), the four points of the scenario of the
  specification, and two groups of points that share the point \<open>p\<close>.
\<close>

definition ex_line :: "point list" where
  "ex_line = [(''A'', 0, 0), (''B'', 1, 0), (''C'', 2, 0)]"

definition ex_engine :: dbscan where
  "ex_engine = DBSCAN_init ex_line 1 3\<lparr>visited := [(''A'', 0, 0)], NOISE := [(''A'', 0, 0)]\<rparr>"

definition ex_scenario :: "point list" where
  "ex_scenario = [(''A'', 0, 0), (''B'', 0, 1), (''C'', 0, 2), (''D'', 10, 10)]"

definition ex_border :: "point list" where
  "ex_border = [(''q1'', 0, 0), (''a1'', -1, 0), (''a2'', 0, 1), (''p'', 1, 0),
                (''q2'', 2, 0), (''b1'', 3, 0), (''b2'', 2, 1)]"

section \<open>Lemmas\<close>

subsection \<open>One iteration of the expansion loop\<close>

lemma set_extendNeighborhoodPts:
  "set (extendNeighborhoodPts ns nbrs) = set nbrs \<union> set ns"
  by (induction ns arbitrary: nbrs) auto

lemma checkClusters_cases:
  "checkClusters p ci Ks cs = cs \<or> checkClusters p ci Ks cs = cs[ci := addPoint (cs ! ci) p]"
  by (induction Ks) auto

lemma checkClusters_member:
  "p \<in> set (pts (cs ! ci)) \<Longrightarrow> checkClusters p ci Ks cs = cs"
  by (induction Ks) auto

lemma checkClusters_absorb:
  "p \<notin> set (pts (cs ! ci)) \<Longrightarrow> cs ! ci \<in> set Ks \<Longrightarrow>
   checkClusters p ci Ks cs = cs[ci := addPoint (cs ! ci) p]"
  by (induction Ks) auto

lemma checkClusters_eq:
  assumes "ci < length cs"
  shows "checkClusters p ci cs cs =
     (if p \<in> set (pts (cs ! ci)) then cs else cs[ci := addPoint (cs ! ci) p])"
  using assms by (simp add: checkClusters_member checkClusters_absorb)

lemma expand_step_visited:
  "visited (snd (expand_step i nbrs ci s)) =
     (if nbrs ! i \<in> set (visited s) then visited s else visited s @ [nbrs ! i])"
  by (simp add: expand_step_def Let_def)

lemma expand_step_fields [simp]:
  "D (snd (expand_step i nbrs ci s)) = D s"
  "eps (snd (expand_step i nbrs ci s)) = eps s"
  "minPts (snd (expand_step i nbrs ci s)) = minPts s"
  "NOISE (snd (expand_step i nbrs ci s)) = NOISE s"
  by (simp_all add: expand_step_def Let_def)

lemma expand_step_Clusters:
  assumes "ci < length (Clusters s)"
  shows "Clusters (snd (expand_step i nbrs ci s)) =
     (if nbrs ! i \<in> set (pts (Clusters s ! ci)) then Clusters s
      else (Clusters s)[ci := addPoint (Clusters s ! ci) (nbrs ! i)])"
  using assms by (simp add: expand_step_def Let_def checkClusters_eq)

lemma expand_step_nbrs:
  "fst (expand_step i nbrs ci s) =
     (if nbrs ! i \<notin> set (visited s) \<and> minPts s \<le> int (length (regionQuery s (nbrs ! i)))
      then extendNeighborhoodPts (regionQuery s (nbrs ! i)) nbrs else nbrs)"
  by (simp add: expand_step_def Let_def)

lemma expand_step_Clusters_length:
  "length (Clusters (snd (expand_step i nbrs ci s))) = length (Clusters s)"
proof -
  have "length (checkClusters p ci Ks cs) = length cs" for p Ks cs
    using checkClusters_cases [of p ci Ks cs] by auto
  then show ?thesis by (simp add: expand_step_def Let_def)
qed

lemma regionQuery_state:
  "D s' = D s \<Longrightarrow> eps s' = eps s \<Longrightarrow> regionQuery s' = regionQuery s"
  by (simp add: regionQuery_def fun_eq_iff)

subsection \<open>The expansion loop and its invariant rule\<close>

lemma expand_loop_unfold:
  "i < length nbrs \<Longrightarrow> expand_loop i nbrs ci s =
     expand_loop (Suc i) (fst (expand_step i nbrs ci s)) ci (snd (expand_step i nbrs ci s))"
  by (subst expand_loop.simps) (simp only: if_True)

lemma expand_loop_done: "\<not> i < length nbrs \<Longrightarrow> expand_loop i nbrs ci s = (nbrs, s)"
  by (subst expand_loop.simps) (simp only: if_False)

lemma expand_loop_induct_inv:
  assumes init: "I i nbrs s" and le: "i \<le> length nbrs"
    and step: "\<And>i nbrs s. I i nbrs s \<Longrightarrow> i < length nbrs \<Longrightarrow>
       I (Suc i) (fst (expand_step i nbrs ci s)) (snd (expand_step i nbrs ci s))"
  shows "I (length (fst (expand_loop i nbrs ci s))) (fst (expand_loop i nbrs ci s))
           (snd (expand_loop i nbrs ci s))"
proof -
  have "c = ci \<Longrightarrow> I i nbrs s \<Longrightarrow> i \<le> length nbrs \<Longrightarrow>
      I (length (fst (expand_loop i nbrs c s))) (fst (expand_loop i nbrs c s))
        (snd (expand_loop i nbrs c s))" for c
  proof (induction i nbrs c s rule: expand_loop.induct)
    case (1 i nbrs c s)
    show ?case
    proof (cases "i < length nbrs")
      case True
      let ?r = "expand_step i nbrs c s"
      have a: "I (Suc i) (fst ?r) (snd ?r)"
        unfolding \<open>c = ci\<close> using "1.prems"(2) True by (rule step)
      have b: "Suc i \<le> length (fst ?r)"
        using True expand_step_length [of nbrs i c s] by simp
      show ?thesis
        unfolding expand_loop_unfold [OF True] by (rule "1.IH" [OF True \<open>c = ci\<close> a b])
    next
      case False
      with "1.prems" have "i = length nbrs" by simp
      with "1.prems"(2) show ?thesis unfolding expand_loop_done [OF False] by simp
    qed
  qed
  from this [OF refl init le] show ?thesis .
qed

lemma expand_loop_fields:
  "D (snd (expand_loop i nbrs ci s)) = D s \<and>
   eps (snd (expand_loop i nbrs ci s)) = eps s \<and>
   minPts (snd (expand_loop i nbrs ci s)) = minPts s \<and>
   NOISE (snd (expand_loop i nbrs ci s)) = NOISE s \<and>
   length (Clusters (snd (expand_loop i nbrs ci s))) = length (Clusters s)"
proof (induction i nbrs ci s rule: expand_loop.induct)
  case (1 i nbrs ci s)
  show ?case
  proof (cases "i < length nbrs")
    case True
    show ?thesis
      unfolding expand_loop_unfold [OF True]
      using "1.IH" [OF True] by (simp add: expand_step_Clusters_length)
  next
    case False
    show ?thesis unfolding expand_loop_done [OF False] by simp
  qed
qed

subsection \<open>The invariant of the scan\<close>

lemma pts_addPoint [simp]: "pts (addPoint c p) = pts c @ [p]"
  by (simp add: addPoint_def)

lemma cid_addPoint [simp]: "cid (addPoint c p) = cid c"
  by (simp add: addPoint_def)

lemma UN_pts_update:
  "ci < length cs \<Longrightarrow>
   (\<Union>c \<in> set (cs[ci := addPoint (cs ! ci) p]). set (pts c)) = insert p (\<Union>c \<in> set cs. set (pts c))"
proof (induction cs arbitrary: ci)
  case Nil
  then show ?case by simp
next
  case (Cons c cs)
  show ?case
  proof (cases ci)
    case 0
    then show ?thesis by auto
  next
    case (Suc j)
    with Cons.prems have "j < length cs" by simp
    from Cons.IH [OF this] Suc show ?thesis by auto
  qed
qed

lemma distinct_pts_update:
  assumes "\<forall>c \<in> set cs. distinct (pts c)" and "ci < length cs" and "p \<notin> set (pts (cs ! ci))"
  shows "\<forall>c \<in> set (cs[ci := addPoint (cs ! ci) p]). distinct (pts c)"
proof
  fix c assume "c \<in> set (cs[ci := addPoint (cs ! ci) p])"
  then have "c = addPoint (cs ! ci) p \<or> c \<in> set cs"
    using set_update_subset_insert [of cs ci "addPoint (cs ! ci) p"] by auto
  moreover have "distinct (pts (cs ! ci))" using assms(1,2) by simp
  ultimately show "distinct (pts c)" using assms(1,3) by auto
qed

lemma expand_step_clustered:
  assumes "ci < length (Clusters s)"
  shows "clustered (snd (expand_step i nbrs ci s)) = insert (nbrs ! i) (clustered s)"
proof (cases "nbrs ! i \<in> set (pts (Clusters s ! ci))")
  case True
  then have "nbrs ! i \<in> clustered s"
    using assms unfolding clustered_def by (auto intro: nth_mem)
  then show ?thesis
    using True assms by (auto simp: clustered_def expand_step_Clusters)
next
  case False
  then show ?thesis
    using assms by (simp add: clustered_def expand_step_Clusters UN_pts_update)
qed

lemma expand_step_set_nbrs:
  "set nbrs \<subseteq> set (D s) \<Longrightarrow> set (fst (expand_step i nbrs ci s)) \<subseteq> set (D s)"
  using regionQuery_subset [of s "nbrs ! i"]
  by (auto simp: expand_step_nbrs set_extendNeighborhoodPts)

lemma expand_step_consistent:
  assumes "consistent s" and "ci < length (Clusters s)" and "i < length nbrs"
    and "set nbrs \<subseteq> set (D s)"
  shows "consistent (snd (expand_step i nbrs ci s))"
proof -
  let ?s = "snd (expand_step i nbrs ci s)"
  have p: "nbrs ! i \<in> set (D s)" using assms(3,4) by (auto dest: nth_mem)
  have v: "set (visited ?s) = insert (nbrs ! i) (set (visited s))"
    by (auto simp: expand_step_visited)
  have dv: "distinct (visited ?s)"
    using assms(1) by (simp add: expand_step_visited consistent_def)
  have c: "clustered ?s = insert (nbrs ! i) (clustered s)"
    using assms(2) by (rule expand_step_clustered)
  have dc: "\<forall>c \<in> set (Clusters ?s). distinct (pts c)"
    using assms(1,2) distinct_pts_update [of "Clusters s" ci "nbrs ! i"]
    by (simp add: expand_step_Clusters consistent_def)
  show ?thesis
    unfolding consistent_def using assms(1) p v dv c dc
    by (simp add: consistent_def) blast
qed

lemma run_step_visited:
  "pt \<in> set (visited s) \<Longrightarrow> run_step pt (g, s) = (g, s)"
  by (simp add: run_step_def)

lemma run_step_noise:
  "pt \<notin> set (visited s) \<Longrightarrow> int (length (regionQuery s pt)) < minPts s \<Longrightarrow>
   run_step pt (g, s) = (g, s\<lparr>visited := visited s @ [pt], NOISE := NOISE s @ [pt]\<rparr>)"
  by (simp add: run_step_def Let_def)

lemma run_step_core:
  "pt \<notin> set (visited s) \<Longrightarrow> \<not> int (length (regionQuery s pt)) < minPts s \<Longrightarrow>
   run_step pt (g, s) =
     (g + 1, snd (expand_loop 0 (regionQuery s pt) (length (Clusters s)) (seeded g pt s)))"
  by (simp add: run_step_def Let_def Cluster_init_def expandCluster_def seeded_def addPoint_def)

lemma run_step_cases:
  obtains (visited) "pt \<in> set (visited s)" "run_step pt (g, s) = (g, s)"
  | (noise) "pt \<notin> set (visited s)" "int (length (regionQuery s pt)) < minPts s"
      "run_step pt (g, s) = (g, s\<lparr>visited := visited s @ [pt], NOISE := NOISE s @ [pt]\<rparr>)"
  | (core) "pt \<notin> set (visited s)" "minPts s \<le> int (length (regionQuery s pt))"
      "run_step pt (g, s) =
         (g + 1, snd (expand_loop 0 (regionQuery s pt) (length (Clusters s)) (seeded g pt s)))"
  using run_step_visited [of pt s g] run_step_noise [of pt s g] run_step_core [of pt s g]
  by (cases "pt \<in> set (visited s)"; cases "int (length (regionQuery s pt)) < minPts s") auto

lemma seeded_fields [simp]:
  "D (seeded g pt s) = D s" "eps (seeded g pt s) = eps s" "minPts (seeded g pt s) = minPts s"
  "NOISE (seeded g pt s) = NOISE s" "visited (seeded g pt s) = visited s @ [pt]"
  "Clusters (seeded g pt s) = Clusters s @ [\<lparr>cid = g, pts = [pt]\<rparr>]"
  by (simp_all add: seeded_def)

lemma run_step_fields:
  "D (snd (run_step pt (g, s))) = D s \<and> eps (snd (run_step pt (g, s))) = eps s \<and>
   minPts (snd (run_step pt (g, s))) = minPts s"
  by (rule run_step_cases [where pt = pt and s = s and g = g]) (simp_all add: expand_loop_fields)

lemma regionQuery_seeded [simp]: "regionQuery (seeded g pt s) = regionQuery s"
  by (rule regionQuery_state) simp_all

lemma seeded_consistent:
  assumes "consistent s" and "pt \<notin> set (visited s)" and "pt \<in> set (D s)"
  shows "consistent (seeded g pt s)"
  using assms by (auto simp: consistent_def clustered_def)

lemma expand_loop_consistent:
  assumes "consistent s" and "ci < length (Clusters s)" and "set nbrs \<subseteq> set (D s)"
    and "i \<le> length nbrs"
  shows "consistent (snd (expand_loop i nbrs ci s))"
proof -
  let ?I = "\<lambda>(i::nat) nbrs s'. consistent s' \<and> ci < length (Clusters s') \<and>
              set nbrs \<subseteq> set (D s')"
  have "?I (length (fst (expand_loop i nbrs ci s))) (fst (expand_loop i nbrs ci s))
          (snd (expand_loop i nbrs ci s))"
  proof (rule expand_loop_induct_inv [where I = ?I])
    show "?I i nbrs s" using assms by simp
    show "i \<le> length nbrs" by fact
  next
    fix j ns s'
    assume I: "?I j ns s'" and lt: "j < length ns"
    from I have c: "consistent s'" and ci: "ci < length (Clusters s')"
      and sub: "set ns \<subseteq> set (D s')" by simp_all
    have "consistent (snd (expand_step j ns ci s'))"
      using c ci lt sub by (rule expand_step_consistent)
    moreover have "set (fst (expand_step j ns ci s')) \<subseteq> set (D s')"
      using sub by (rule expand_step_set_nbrs)
    ultimately show "?I (Suc j) (fst (expand_step j ns ci s')) (snd (expand_step j ns ci s'))"
      using ci by (simp add: expand_step_Clusters_length)
  qed
  then show ?thesis by simp
qed

lemma run_step_consistent:
  assumes "consistent s" and "pt \<in> set (D s)"
  shows "consistent (snd (run_step pt (g, s)))"
proof (cases rule: run_step_cases [where pt = pt and s = s and g = g])
  case visited
  with assms show ?thesis by simp
next
  case noise
  with assms show ?thesis by (auto simp: consistent_def clustered_def)
next
  case core
  have "consistent (seeded g pt s)" using assms core(1) by (simp add: seeded_consistent)
  then have "consistent (snd (expand_loop 0 (regionQuery s pt) (length (Clusters s)) (seeded g pt s)))"
    using regionQuery_subset [of s pt] by (intro expand_loop_consistent) simp_all
  with core show ?thesis by simp
qed

lemma expand_step_visited_grows:
  "\<exists>ys. visited (snd (expand_step i nbrs ci s)) = visited s @ ys"
  by (simp add: expand_step_visited)

lemma expand_loop_visited_grows:
  "\<exists>ys. visited (snd (expand_loop i nbrs ci s)) = visited s @ ys"
proof (induction i nbrs ci s rule: expand_loop.induct)
  case (1 i nbrs ci s)
  show ?case
  proof (cases "i < length nbrs")
    case True
    from "1.IH" [OF True] expand_step_visited_grows [of i nbrs ci s]
    show ?thesis unfolding expand_loop_unfold [OF True] by auto
  next
    case False
    show ?thesis unfolding expand_loop_done [OF False] by simp
  qed
qed

lemma run_step_visited_grows:
  "\<exists>ys. visited (snd (run_step pt (g, s))) = visited s @ ys"
proof (cases rule: run_step_cases [where pt = pt and s = s and g = g])
  case core
  from expand_loop_visited_grows [of 0 "regionQuery s pt" "length (Clusters s)" "seeded g pt s"]
  show ?thesis unfolding core(3) by auto
qed simp_all

lemma run_step_marks: "pt \<in> set (visited (snd (run_step pt (g, s))))"
proof (cases rule: run_step_cases [where pt = pt and s = s and g = g])
  case core
  from expand_loop_visited_grows [of 0 "regionQuery s pt" "length (Clusters s)" "seeded g pt s"]
  show ?thesis unfolding core(3) by auto
qed simp_all

lemma run_loop_fields:
  "D (snd (run_loop xs gs)) = D (snd gs) \<and> eps (snd (run_loop xs gs)) = eps (snd gs) \<and>
   minPts (snd (run_loop xs gs)) = minPts (snd gs)"
proof (induction xs arbitrary: gs)
  case Nil
  show ?case by simp
next
  case (Cons pt xs)
  obtain g s where gs: "gs = (g, s)" by (cases gs)
  from Cons.IH [of "run_step pt gs"] run_step_fields [of pt g s] gs
  show ?case by simp
qed

lemma run_loop_visited_grows:
  "\<exists>ys. visited (snd (run_loop xs gs)) = visited (snd gs) @ ys"
proof (induction xs arbitrary: gs)
  case Nil
  show ?case by simp
next
  case (Cons pt xs)
  obtain g s where gs: "gs = (g, s)" by (cases gs)
  from Cons.IH [of "run_step pt gs"] run_step_visited_grows [of pt g s] gs
  show ?case by auto
qed

lemma run_loop_marks: "set xs \<subseteq> set (visited (snd (run_loop xs gs)))"
proof (induction xs arbitrary: gs)
  case Nil
  show ?case by simp
next
  case (Cons pt xs)
  obtain g s where gs: "gs = (g, s)" by (cases gs)
  have "pt \<in> set (visited (snd (run_step pt gs)))" unfolding gs by (rule run_step_marks)
  moreover obtain ys where "visited (snd (run_loop xs (run_step pt gs)))
      = visited (snd (run_step pt gs)) @ ys"
    using run_loop_visited_grows by blast
  ultimately have "pt \<in> set (visited (snd (run_loop (pt # xs) gs)))" by simp
  with Cons.IH [of "run_step pt gs"] show ?case by simp
qed

lemma run_loop_consistent:
  "consistent (snd gs) \<Longrightarrow> set xs \<subseteq> set (D (snd gs)) \<Longrightarrow> consistent (snd (run_loop xs gs))"
proof (induction xs arbitrary: gs)
  case Nil
  then show ?case by simp
next
  case (Cons pt xs)
  obtain g s where gs: "gs = (g, s)" by (cases gs)
  have "consistent (snd (run_step pt gs))"
    using Cons.prems unfolding gs by (simp add: run_step_consistent)
  moreover have "set xs \<subseteq> set (D (snd (run_step pt gs)))"
    using Cons.prems run_step_fields [of pt g s] unfolding gs by simp
  ultimately show ?case using Cons.IH [of "run_step pt gs"] by simp
qed

lemma DBSCAN_init_consistent: "consistent (DBSCAN_init ds e m)"
  by (simp add: consistent_def DBSCAN_init_def clustered_def)

lemma run_state_consistent: "consistent s \<Longrightarrow> consistent (snd (run_state g s))"
  unfolding run_state_def by (rule run_loop_consistent) simp_all

lemma run_state_visited:
  "consistent s \<Longrightarrow> set (visited (snd (run_state g s))) = set (D s)"
proof
  assume c: "consistent s"
  from run_state_consistent [OF c, of g]
  have "set (visited (snd (run_state g s))) \<subseteq> set (D (snd (run_state g s)))"
    unfolding consistent_def by blast
  then show "set (visited (snd (run_state g s))) \<subseteq> set (D s)"
    using run_loop_fields [of "D s" "(g, s)"] by (simp add: run_state_def)
  show "set (D s) \<subseteq> set (visited (snd (run_state g s)))"
    unfolding run_state_def by (rule run_loop_marks)
qed

subsection \<open>The visited list has no duplicates\<close>





subsection \<open>Coverage of the dataset\<close>




subsection \<open>The region query\<close>


lemma regionQuery_self:
  assumes "0 \<le> eps s" and "pt \<in> set (D s)"
  shows "pt \<in> set (regionQuery s pt)"
  using assms by (simp add: regionQuery_def)

subsection \<open>Steps that make no noise\<close>

lemma run_step_regionQuery: "regionQuery (snd (run_step pt (g, s))) = regionQuery s"
  using run_step_fields [of pt g s] by (intro regionQuery_state) simp_all

lemma run_step_core_NOISE:
  assumes "minPts s \<le> int (length (regionQuery s pt))"
  shows "NOISE (snd (run_step pt (g, s))) = NOISE s"
proof (cases rule: run_step_cases [where pt = pt and s = s and g = g])
  case core
  show ?thesis unfolding core(3) by (simp add: expand_loop_fields)
qed (use assms in simp_all)

lemma run_loop_all_core_NOISE:
  assumes "\<forall>pt \<in> set xs. minPts (snd gs) \<le> int (length (regionQuery (snd gs) pt))"
  shows "NOISE (snd (run_loop xs gs)) = NOISE (snd gs)"
  using assms
proof (induction xs arbitrary: gs)
  case Nil
  show ?case by simp
next
  case (Cons pt xs)
  obtain g s where gs: "gs = (g, s)" by (cases gs)
  have a: "NOISE (snd (run_step pt gs)) = NOISE s"
    using Cons.prems unfolding gs by (simp add: run_step_core_NOISE)
  have "\<forall>q \<in> set xs. minPts (snd (run_step pt gs))
          \<le> int (length (regionQuery (snd (run_step pt gs)) q))"
    using Cons.prems run_step_fields [of pt g s] unfolding gs
    by (simp add: run_step_regionQuery)
  from Cons.IH [OF this] a show ?case by (simp add: gs)
qed

subsection \<open>The cluster made for a core point\<close>

lemma new_cluster_at_add:
  "new_cluster_at n g pt old cs \<Longrightarrow> new_cluster_at n g pt old (cs[n := addPoint (cs ! n) p])"
  by (simp add: new_cluster_at_def)

lemma expand_step_new_cluster:
  assumes "new_cluster_at n g pt old (Clusters s)"
  shows "new_cluster_at n g pt old (Clusters (snd (expand_step i nbrs n s)))"
proof -
  have "n < length (Clusters s)" using assms by (simp add: new_cluster_at_def)
  then show ?thesis
    using assms by (simp add: expand_step_Clusters new_cluster_at_add)
qed

lemma expand_loop_new_cluster:
  "new_cluster_at n g pt old (Clusters s) \<Longrightarrow>
   new_cluster_at n g pt old (Clusters (snd (expand_loop i nbrs n s)))"
proof (induction i nbrs n s rule: expand_loop.induct)
  case (1 i nbrs n s)
  show ?case
  proof (cases "i < length nbrs")
    case True
    from "1.IH" [OF True expand_step_new_cluster [OF "1.prems"]]
    show ?thesis unfolding expand_loop_unfold [OF True] .
  next
    case False
    from "1.prems" show ?thesis unfolding expand_loop_done [OF False] by simp
  qed
qed

subsection \<open>Cluster ids do not influence the scan\<close>

lemma forget_cid_simps [simp]:
  "pts (forget_cid c) = pts c"
  "forget_cid (addPoint c p) = addPoint (forget_cid c) p"
  "forget_cid (forget_cid c) = forget_cid c"
  by (simp_all add: forget_cid_def addPoint_def)

lemma forget_ids_fields [simp]:
  "D (forget_ids s) = D s" "eps (forget_ids s) = eps s" "minPts (forget_ids s) = minPts s"
  "NOISE (forget_ids s) = NOISE s" "visited (forget_ids s) = visited s"
  "Clusters (forget_ids s) = map forget_cid (Clusters s)"
  by (simp_all add: forget_ids_def)

lemma forget_ids_idem [simp]: "forget_ids (forget_ids s) = forget_ids s"
  by (simp add: forget_ids_def)

lemma regionQuery_forget [simp]: "regionQuery (forget_ids s) = regionQuery s"
  by (rule regionQuery_state) simp_all

lemma checkClusters_forget:
  "ci < length cs \<Longrightarrow>
   checkClusters p ci (map forget_cid Ks) (map forget_cid cs) = map forget_cid (checkClusters p ci Ks cs)"
  by (induction Ks) (simp_all add: map_update)

lemma expand_step_forget:
  assumes "ci < length (Clusters s)"
  shows "expand_step i nbrs ci (forget_ids s)
       = (fst (expand_step i nbrs ci s), forget_ids (snd (expand_step i nbrs ci s)))"
  using assms
  by (simp add: expand_step_def Let_def forget_ids_def checkClusters_forget)

lemma expand_loop_forget:
  "ci < length (Clusters s) \<Longrightarrow>
   expand_loop i nbrs ci (forget_ids s)
     = (fst (expand_loop i nbrs ci s), forget_ids (snd (expand_loop i nbrs ci s)))"
proof (induction i nbrs ci s rule: expand_loop.induct)
  case (1 i nbrs ci s)
  show ?case
  proof (cases "i < length nbrs")
    case True
    have "ci < length (Clusters (snd (expand_step i nbrs ci s)))"
      using "1.prems" by (simp add: expand_step_Clusters_length)
    from "1.IH" [OF True this] show ?thesis
      unfolding expand_loop_unfold [OF True] expand_step_forget [OF "1.prems"] by simp
  next
    case False
    show ?thesis unfolding expand_loop_done [OF False] by simp
  qed
qed

lemma seeded_forget:
  "forget_ids (seeded g' pt (forget_ids s)) = forget_ids (seeded g pt s)"
  by (simp add: seeded_def forget_ids_def forget_cid_def)

lemma expand_loop_forget_snd:
  "ci < length (Clusters s) \<Longrightarrow>
   forget_ids (snd (expand_loop i nbrs ci s)) = snd (expand_loop i nbrs ci (forget_ids s))"
  by (simp add: expand_loop_forget)

lemma run_step_forget:
  "forget_ids (snd (run_step pt (g, s))) = forget_ids (snd (run_step pt (g', forget_ids s)))"
proof (cases rule: run_step_cases [where pt = pt and s = s and g = g])
  case visited
  then show ?thesis by (simp add: run_step_visited)
next
  case noise
  then show ?thesis by (simp add: run_step_noise forget_ids_def)
next
  case core
  let ?n = "length (Clusters s)"
  have "run_step pt (g', forget_ids s) =
     (g' + 1, snd (expand_loop 0 (regionQuery s pt) ?n (seeded g' pt (forget_ids s))))"
    using core(1,2) run_step_core [of pt "forget_ids s" g'] by simp
  then have "forget_ids (snd (run_step pt (g', forget_ids s)))
      = snd (expand_loop 0 (regionQuery s pt) ?n (forget_ids (seeded g' pt (forget_ids s))))"
    by (simp add: expand_loop_forget_snd)
  also have "\<dots> = snd (expand_loop 0 (regionQuery s pt) ?n (forget_ids (seeded g pt s)))"
    by (simp only: seeded_forget [of g' pt s g])
  also have "\<dots> = forget_ids (snd (expand_loop 0 (regionQuery s pt) ?n (seeded g pt s)))"
    by (simp add: expand_loop_forget_snd)
  finally show ?thesis unfolding core(3) by simp
qed

lemma run_loop_forget:
  "forget_ids s = forget_ids s' \<Longrightarrow>
   forget_ids (snd (run_loop xs (g, s))) = forget_ids (snd (run_loop xs (g', s')))"
proof (induction xs arbitrary: g s g' s')
  case Nil
  then show ?case by simp
next
  case (Cons pt xs)
  have "forget_ids (snd (run_step pt (g, s))) = forget_ids (snd (run_step pt (g', s')))"
    using run_step_forget [of pt g s 0] run_step_forget [of pt g' s' 0] Cons.prems by simp
  from Cons.IH [OF this, of "fst (run_step pt (g, s))" "fst (run_step pt (g', s'))"]
  show ?case by simp
qed

lemma run_loop_all_visited:
  "set xs \<subseteq> set (visited (snd gs)) \<Longrightarrow> run_loop xs gs = gs"
proof (induction xs)
  case Nil
  show ?case by simp
next
  case (Cons pt xs)
  obtain g s where gs: "gs = (g, s)" by (cases gs)
  from Cons.prems have "run_step pt gs = gs" unfolding gs by (simp add: run_step_visited)
  with Cons show ?case by simp
qed

lemma map_snoc_nth:
  assumes "length xs = Suc n"
  shows "map f xs = map f (take n xs) @ [f (xs ! n)]"
proof -
  have "xs = take n xs @ [xs ! n]"
    using assms take_Suc_conv_app_nth [of n xs] by simp
  then have "map f xs = map f (take n xs @ [xs ! n])" by (rule arg_cong)
  then show ?thesis by (simp only: map_append list.map)
qed

lemma run_step_ids_from:
  assumes "ids_from g0 (g, s)"
  shows "ids_from g0 (run_step pt (g, s))"
proof (cases rule: run_step_cases [where pt = pt and s = s and g = g])
  case visited
  with assms show ?thesis by simp
next
  case noise
  with assms show ?thesis by (simp add: ids_from_def)
next
  case core
  let ?n = "length (Clusters s)"
  let ?cs = "Clusters (snd (expand_loop 0 (regionQuery s pt) ?n (seeded g pt s)))"
  have "new_cluster_at ?n g pt (Clusters s) (Clusters (seeded g pt s))"
    by (simp add: new_cluster_at_def)
  then have "new_cluster_at ?n g pt (Clusters s) ?cs"
    by (rule expand_loop_new_cluster)
  then have len: "length ?cs = Suc ?n" and tk: "take ?n ?cs = Clusters s"
    and id: "cid (?cs ! ?n) = g"
    by (simp_all add: new_cluster_at_def)
  have "map cid ?cs = map cid (take ?n ?cs) @ [cid (?cs ! ?n)]"
    using len by (rule map_snoc_nth)
  then have mc: "map cid ?cs = map cid (Clusters s) @ [g]"
    by (simp only: tk id)
  from assms have h1: "map cid (Clusters s) = map (\<lambda>k. g0 + int k) [0..<?n]"
    and h2: "g = g0 + int ?n" by (simp_all add: ids_from_def)
  have a: "map cid ?cs = map (\<lambda>k. g0 + int k) [0..<length ?cs]"
    unfolding len using mc h1 h2 by simp
  have b: "g + 1 = g0 + int (length ?cs)" unfolding len using h2 by simp
  show ?thesis unfolding core(3) ids_from_def using a b by simp
qed

lemma run_loop_ids_from: "ids_from g0 gs \<Longrightarrow> ids_from g0 (run_loop xs gs)"
proof (induction xs arbitrary: gs)
  case Nil
  then show ?case by simp
next
  case (Cons pt xs)
  obtain g s where gs: "gs = (g, s)" by (cases gs)
  from Cons.prems have "ids_from g0 (run_step pt gs)" unfolding gs by (rule run_step_ids_from)
  from Cons.IH [OF this] show ?case by simp
qed

lemma run_ids:
  "map cid (fst (run g (DBSCAN_init ds e m)))
     = map (\<lambda>k. g + int k) [0..<length (fst (run g (DBSCAN_init ds e m)))]"
proof -
  have "ids_from g (g, DBSCAN_init ds e m)" by (simp add: ids_from_def DBSCAN_init_def)
  then have "ids_from g (run_loop ds (g, DBSCAN_init ds e m))" by (rule run_loop_ids_from)
  then show ?thesis by (simp add: ids_from_def run_def run_state_def DBSCAN_init_def)
qed

subsection \<open>Bounds and the budget that suffices\<close>

lemma mset_snoc_new:
  assumes "mset nbrs \<subseteq># mset ds" and "n \<notin> set nbrs" and "n \<in> set ds"
  shows "mset (nbrs @ [n]) \<subseteq># mset ds"
proof (rule mset_subset_eqI)
  fix a
  show "count (mset (nbrs @ [n])) a \<le> count (mset ds) a"
  proof (cases "a = n")
    case True
    have z: "count (mset nbrs) n = 0" using assms(2) by (simp add: count_eq_zero_iff)
    have p: "0 < count (mset ds) n" using assms(3) by (simp add: count_greater_zero_iff)
    have "count (mset (nbrs @ [n])) n = Suc (count (mset nbrs) n)" by simp
    with z p show ?thesis unfolding True by linarith
  next
    case False
    then show ?thesis using mset_subset_eq_count [OF assms(1), of a] by simp
  qed
qed

lemma extend_mset:
  "set ns \<subseteq> set ds \<Longrightarrow> mset nbrs \<subseteq># mset ds \<Longrightarrow>
   mset (extendNeighborhoodPts ns nbrs) \<subseteq># mset ds"
proof (induction ns arbitrary: nbrs)
  case Nil
  then show ?case by simp
next
  case (Cons n ns)
  then have "mset (if n \<notin> set nbrs then nbrs @ [n] else nbrs) \<subseteq># mset ds"
    using mset_snoc_new [of nbrs ds n] by simp
  with Cons show ?case by simp
qed

lemma regionQuery_mset: "mset (regionQuery s pt) \<subseteq># mset (D s)"
  by (simp add: regionQuery_def)

lemma expand_step_mset:
  assumes "mset nbrs \<subseteq># mset (D s)"
  shows "mset (fst (expand_step i nbrs ci s)) \<subseteq># mset (D s)"
  using assms regionQuery_subset [of s "nbrs ! i"]
  by (simp add: expand_step_nbrs extend_mset)

lemma expand_loop_mset:
  "mset nbrs \<subseteq># mset (D s) \<Longrightarrow> mset (fst (expand_loop i nbrs ci s)) \<subseteq># mset (D s)"
proof (induction i nbrs ci s rule: expand_loop.induct)
  case (1 i nbrs ci s)
  show ?case
  proof (cases "i < length nbrs")
    case True
    have "mset (fst (expand_step i nbrs ci s)) \<subseteq># mset (D (snd (expand_step i nbrs ci s)))"
      using "1.prems" by (simp add: expand_step_mset)
    from "1.IH" [OF True this] show ?thesis
      unfolding expand_loop_unfold [OF True] by simp
  next
    case False
    from "1.prems" show ?thesis unfolding expand_loop_done [OF False] by simp
  qed
qed

lemma mset_length_le: "mset xs \<subseteq># mset ys \<Longrightarrow> length xs \<le> length ys"
  using size_mset_mono [of "mset xs" "mset ys"] by simp

lemma expand_fuel_enough:
  "mset nbrs \<subseteq># mset (D s) \<Longrightarrow> length (D s) \<le> n + i \<Longrightarrow>
   expand_fuel n i nbrs ci s = Some (expand_loop i nbrs ci s)"
proof (induction i nbrs ci s arbitrary: n rule: expand_loop.induct)
  case (1 i nbrs ci s)
  show ?case
  proof (cases "i < length nbrs")
    case True
    let ?r = "expand_step i nbrs ci s"
    have "length nbrs \<le> length (D s)" using "1.prems"(1) by (rule mset_length_le)
    with True "1.prems"(2) obtain k where n: "n = Suc k" by (cases n) simp_all
    have a: "mset (fst ?r) \<subseteq># mset (D (snd ?r))"
      using "1.prems"(1) by (simp add: expand_step_mset)
    have b: "length (D (snd ?r)) \<le> k + Suc i" using "1.prems"(2) n by simp
    from "1.IH" [OF True a b] show ?thesis
      unfolding expand_loop_unfold [OF True] n using True by simp
  next
    case False
    then show ?thesis unfolding expand_loop_done [OF False] by (cases n) simp_all
  qed
qed

lemma expandCluster_fuel_enough:
  assumes "mset nbrs \<subseteq># mset (D s)" and "length (D s) \<le> n"
  shows "expandCluster_fuel n pt nbrs ci s = Some (expandCluster pt nbrs ci s)"
  unfolding expandCluster_fuel_def expandCluster_def
  using assms by (intro expand_fuel_enough) simp_all

lemma run_step_fuel_enough:
  assumes "length (D s) \<le> n"
  shows "run_step_fuel n pt (g, s) = Some (run_step pt (g, s))"
  using assms
  by (simp add: run_step_fuel_def run_step_def Let_def Cluster_init_def
      expandCluster_fuel_enough regionQuery_mset)

lemma run_loop_fuel_enough:
  "length (D (snd gs)) \<le> n \<Longrightarrow> run_loop_fuel n xs gs = Some (run_loop xs gs)"
proof (induction xs arbitrary: gs)
  case Nil
  show ?case by simp
next
  case (Cons pt xs)
  obtain g s where gs: "gs = (g, s)" by (cases gs)
  have a: "run_step_fuel n pt gs = Some (run_step pt gs)"
    using Cons.prems unfolding gs by (simp add: run_step_fuel_enough)
  have "length (D (snd (run_step pt gs))) \<le> n"
    using Cons.prems run_step_fields [of pt g s] unfolding gs by simp
  from Cons.IH [OF this] a show ?case by simp
qed

lemma run_fuel_enough: "length (D s) \<le> n \<Longrightarrow> run_fuel n g s = Some (run g s)"
  by (simp add: run_fuel_def run_def run_state_def run_loop_fuel_enough)

lemma run_step_visited_prefix:
  "take (length (visited s)) (visited (snd (run_step pt (g, s)))) = visited s"
  using run_step_visited_grows [of pt g s] by auto

lemma consistent_visited_bound:
  assumes "consistent s"
  shows "length (visited s) \<le> length (remdups (D s))"
proof -
  from assms have d: "distinct (visited s)" and sub: "set (visited s) \<subseteq> set (D s)"
    unfolding consistent_def by blast+
  from d have "length (visited s) = card (set (visited s))" by (simp add: distinct_card)
  also have "\<dots> \<le> card (set (D s))" using sub by (simp add: card_mono)
  also have "\<dots> = length (remdups (D s))" by (simp add: length_remdups_card_conv)
  finally show ?thesis .
qed

lemma run_fuel_short: "run_fuel 2 0 (DBSCAN_init ex_line 1 3) = None"
  by code_simp

subsection \<open>Closed sets of points\<close>

lemma core_state:
  "D s' = D s \<Longrightarrow> eps s' = eps s \<Longrightarrow> minPts s' = minPts s \<Longrightarrow> core s' = core s"
  by (simp add: core_def fun_eq_iff regionQuery_state [of s' s])

lemma region_closed_state:
  "D s' = D s \<Longrightarrow> eps s' = eps s \<Longrightarrow> minPts s' = minPts s \<Longrightarrow> region_closed s' = region_closed s"
  by (simp add: region_closed_def fun_eq_iff core_state [of s' s] regionQuery_state [of s' s])

lemma extendNeighborhoodPts_append: "\<exists>zs. extendNeighborhoodPts ns nbrs = nbrs @ zs"
proof (induction ns arbitrary: nbrs)
  case Nil
  show ?case by simp
next
  case (Cons n ns)
  from Cons.IH [of "if n \<notin> set nbrs then nbrs @ [n] else nbrs"] show ?case by auto
qed

lemma expand_step_nbrs_append: "\<exists>zs. fst (expand_step i nbrs ci s) = nbrs @ zs"
  using extendNeighborhoodPts_append [of "regionQuery s (nbrs ! i)" nbrs]
  by (simp add: expand_step_nbrs)

lemma expand_step_nbrs_core:
  "fst (expand_step i nbrs ci s) =
     (if nbrs ! i \<notin> set (visited s) \<and> core s (nbrs ! i)
      then extendNeighborhoodPts (regionQuery s (nbrs ! i)) nbrs else nbrs)"
  by (simp add: expand_step_nbrs core_def)

lemma expand_step_params:
  "regionQuery (snd (expand_step i nbrs ci s)) = regionQuery s"
  "core (snd (expand_step i nbrs ci s)) = core s"
  "region_closed (snd (expand_step i nbrs ci s)) = region_closed s"
proof -
  let ?s = "snd (expand_step i nbrs ci s)"
  have d: "D ?s = D s" and e: "eps ?s = eps s" and m: "minPts ?s = minPts s" by simp_all
  show "regionQuery ?s = regionQuery s" using d e by (rule regionQuery_state)
  show "core ?s = core s" using d e m by (rule core_state)
  show "region_closed ?s = region_closed s" using d e m by (rule region_closed_state)
qed

text \<open>The expansion stays inside every closed set that holds the visited points and the neighbours.\<close>

lemma expand_step_within:
  assumes "region_closed s W" and "set (visited s) \<subseteq> W" and "set nbrs \<subseteq> W" and "i < length nbrs"
  shows "set (visited (snd (expand_step i nbrs ci s))) \<subseteq> W \<and>
         set (fst (expand_step i nbrs ci s)) \<subseteq> W"
proof -
  have p: "nbrs ! i \<in> W" using assms(3,4) by (auto dest: nth_mem)
  then have v: "set (visited (snd (expand_step i nbrs ci s))) \<subseteq> W"
    using assms(2) by (simp add: expand_step_visited)
  have "set (regionQuery s (nbrs ! i)) \<subseteq> W" if "core s (nbrs ! i)"
    using assms(1) p that unfolding region_closed_def by blast
  then have "set (fst (expand_step i nbrs ci s)) \<subseteq> W"
    using assms(3) by (simp add: expand_step_nbrs_core set_extendNeighborhoodPts)
  with v show ?thesis by simp
qed

lemma expand_loop_within:
  assumes "region_closed s W" and "set (visited s) \<subseteq> W" and "set nbrs \<subseteq> W" and "i \<le> length nbrs"
  shows "set (visited (snd (expand_loop i nbrs ci s))) \<subseteq> W"
proof -
  let ?I = "\<lambda>(i::nat) nbrs s'. region_closed s' W \<and> set (visited s') \<subseteq> W \<and> set nbrs \<subseteq> W"
  have "?I (length (fst (expand_loop i nbrs ci s))) (fst (expand_loop i nbrs ci s))
          (snd (expand_loop i nbrs ci s))"
  proof (rule expand_loop_induct_inv [where I = ?I])
    show "?I i nbrs s" using assms by simp
    show "i \<le> length nbrs" by fact
  next
    fix j ns s'
    assume "?I j ns s'" and "j < length ns"
    then show "?I (Suc j) (fst (expand_step j ns ci s')) (snd (expand_step j ns ci s'))"
      using expand_step_within [of s' W ns j ci] by (simp add: expand_step_params)
  qed
  then show ?thesis by simp
qed

lemma expand_step_expanding:
  assumes "expanding i nbrs s" and "i < length nbrs"
  shows "expanding (Suc i) (fst (expand_step i nbrs ci s)) (snd (expand_step i nbrs ci s))"
proof -
  let ?p = "nbrs ! i"
  let ?nbrs = "fst (expand_step i nbrs ci s)"
  let ?s = "snd (expand_step i nbrs ci s)"
  obtain zs where zs: "?nbrs = nbrs @ zs" using expand_step_nbrs_append by blast
  have v: "set (visited ?s) = insert ?p (set (visited s))"
    by (auto simp: expand_step_visited)
  have "take (Suc i) ?nbrs = take i nbrs @ [?p]"
    using assms(2) by (simp add: zs take_Suc_conv_app_nth)
  then have t: "set (take (Suc i) ?nbrs) \<subseteq> set (visited ?s)"
    using assms(1) v by (auto simp: expanding_def)
  have "set (regionQuery s q) \<subseteq> set (visited ?s) \<union> set ?nbrs"
    if q: "q \<in> set (visited ?s)" and c: "core s q" for q
  proof (cases "q \<in> set (visited s)")
    case True
    then have "set (regionQuery s q) \<subseteq> set (visited s) \<union> set nbrs"
      using assms(1) c by (simp add: expanding_def)
    then show ?thesis using v zs by auto
  next
    case False
    with q v have "q = ?p" by simp
    with False c have "?nbrs = extendNeighborhoodPts (regionQuery s ?p) nbrs"
      by (simp add: expand_step_nbrs_core)
    then have "set (regionQuery s ?p) \<subseteq> set ?nbrs"
      by (simp only: set_extendNeighborhoodPts) blast
    then show ?thesis using \<open>q = ?p\<close> by blast
  qed
  with t show ?thesis by (simp add: expanding_def expand_step_params)
qed

lemma expand_loop_region_closed:
  assumes "expanding 0 nbrs s"
  shows "region_closed (snd (expand_loop 0 nbrs ci s)) (set (visited (snd (expand_loop 0 nbrs ci s))))"
proof -
  let ?n = "fst (expand_loop 0 nbrs ci s)" and ?s = "snd (expand_loop 0 nbrs ci s)"
  have "expanding (length ?n) ?n ?s"
    using assms by (rule expand_loop_induct_inv) (simp, rule expand_step_expanding)
  then show ?thesis by (auto simp: expanding_def region_closed_def)
qed

lemma seeded_params:
  "regionQuery (seeded g pt s) = regionQuery s"
  "core (seeded g pt s) = core s"
  "region_closed (seeded g pt s) = region_closed s"
proof -
  let ?s = "seeded g pt s"
  have d: "D ?s = D s" and e: "eps ?s = eps s" and m: "minPts ?s = minPts s" by simp_all
  show "regionQuery ?s = regionQuery s" using d e by (rule regionQuery_state)
  show "core ?s = core s" using d e m by (rule core_state)
  show "region_closed ?s = region_closed s" using d e m by (rule region_closed_state)
qed

lemma run_step_params:
  "regionQuery (snd (run_step pt (g, s))) = regionQuery s"
  "core (snd (run_step pt (g, s))) = core s"
  "region_closed (snd (run_step pt (g, s))) = region_closed s"
proof -
  let ?s = "snd (run_step pt (g, s))"
  have d: "D ?s = D s" and e: "eps ?s = eps s" and m: "minPts ?s = minPts s"
    using run_step_fields [of pt g s] by simp_all
  show "regionQuery ?s = regionQuery s" using d e by (rule regionQuery_state)
  show "core ?s = core s" using d e m by (rule core_state)
  show "region_closed ?s = region_closed s" using d e m by (rule region_closed_state)
qed

text \<open>A scan step keeps the visited points closed.\<close>

lemma run_step_region_closed:
  assumes "region_closed s (set (visited s))"
  shows "region_closed s (set (visited (snd (run_step pt (g, s)))))"
proof (cases rule: run_step_cases [where pt = pt and s = s and g = g])
  case visited
  with assms show ?thesis by simp
next
  case noise
  then have "\<not> core s pt" by (simp add: core_def)
  with assms show ?thesis unfolding noise(3) by (auto simp: region_closed_def)
next
  case core
  let ?n = "length (Clusters s)"
  have "expanding 0 (regionQuery s pt) (seeded g pt s)"
    using assms by (auto simp: expanding_def region_closed_def seeded_params)
  then have "region_closed (snd (expand_loop 0 (regionQuery s pt) ?n (seeded g pt s)))
      (set (visited (snd (expand_loop 0 (regionQuery s pt) ?n (seeded g pt s)))))"
    by (rule expand_loop_region_closed)
  then have "region_closed (snd (run_step pt (g, s))) (set (visited (snd (run_step pt (g, s)))))"
    by (simp only: core(3) snd_conv)
  then show ?thesis by (simp only: run_step_params)
qed

text \<open>A scan step stays inside every closed set that holds the visited points and the seed.\<close>

lemma run_step_within:
  assumes "region_closed s W" and "set (visited s) \<subseteq> W" and "pt \<in> W"
  shows "set (visited (snd (run_step pt (g, s)))) \<subseteq> W"
proof (cases rule: run_step_cases [where pt = pt and s = s and g = g])
  case visited
  with assms show ?thesis by simp
next
  case noise
  with assms show ?thesis by simp
next
  case core
  then have "core s pt" by (simp add: core_def)
  then have "set (regionQuery s pt) \<subseteq> W" using assms(1,3) unfolding region_closed_def by blast
  moreover have "region_closed (seeded g pt s) W" using assms(1) by (simp only: seeded_params)
  moreover have "set (visited (seeded g pt s)) \<subseteq> W" using assms(2,3) by simp
  ultimately have "set (visited (snd (expand_loop 0 (regionQuery s pt) (length (Clusters s))
      (seeded g pt s)))) \<subseteq> W"
    by (intro expand_loop_within) simp_all
  then show ?thesis by (simp only: core(3) snd_conv)
qed

subsection \<open>A larger threshold\<close>

lemma length_filter_mono:
  "(\<And>x. P x \<Longrightarrow> Q x) \<Longrightarrow> length (filter P xs) \<le> length (filter Q xs)"
  by (induction xs) auto

lemma regionQuery_mono:
  assumes "D s1 = D s2" and "eps s1 \<le> eps s2"
  shows "set (regionQuery s1 q) \<subseteq> set (regionQuery s2 q)"
    and "length (regionQuery s1 q) \<le> length (regionQuery s2 q)"
proof -
  show "set (regionQuery s1 q) \<subseteq> set (regionQuery s2 q)"
    using assms by (auto simp: regionQuery_def)
  show "length (regionQuery s1 q) \<le> length (regionQuery s2 q)"
    unfolding regionQuery_def assms(1)
    by (rule length_filter_mono) (use assms(2) in simp)
qed

lemma region_closed_mono:
  assumes "D s1 = D s2" and "eps s1 \<le> eps s2" and "minPts s1 = minPts s2"
    and "region_closed s2 W"
  shows "region_closed s1 W"
  unfolding region_closed_def
proof (intro ballI impI)
  fix q assume q: "q \<in> W" and c: "core s1 q"
  from c regionQuery_mono(2) [OF assms(1,2), of q] assms(3) have "core s2 q"
    by (simp add: core_def)
  with assms(4) q have "set (regionQuery s2 q) \<subseteq> W" unfolding region_closed_def by blast
  with regionQuery_mono(1) [OF assms(1,2), of q] show "set (regionQuery s1 q) \<subseteq> W" by blast
qed

lemma run_step_NOISE:
  "NOISE (snd (run_step pt (g, s))) =
     (if pt \<notin> set (visited s) \<and> \<not> core s pt then NOISE s @ [pt] else NOISE s)"
proof (cases rule: run_step_cases [where pt = pt and s = s and g = g])
  case core
  then show ?thesis by (simp add: core_def expand_loop_fields)
qed (simp_all add: core_def)

lemma run_step_coupled:
  assumes "coupled s1 s2"
  shows "coupled (snd (run_step pt (g1, s1))) (snd (run_step pt (g2, s2)))"
proof -
  let ?s1 = "snd (run_step pt (g1, s1))" and ?s2 = "snd (run_step pt (g2, s2))"
  from assms have d: "D s1 = D s2" and m: "minPts s1 = minPts s2" and e: "eps s1 \<le> eps s2"
    and v: "set (visited s1) \<subseteq> set (visited s2)" and n: "set (NOISE s2) \<subseteq> set (NOISE s1)"
    and c: "region_closed s2 (set (visited s2))"
    by (simp_all add: coupled_def)
  have f: "D ?s1 = D ?s2" "minPts ?s1 = minPts ?s2" "eps ?s1 \<le> eps ?s2"
    using d m e run_step_fields [of pt g1 s1] run_step_fields [of pt g2 s2] by simp_all
  have c2: "region_closed s2 (set (visited ?s2))" using c by (rule run_step_region_closed)
  then have c2': "region_closed ?s2 (set (visited ?s2))" by (simp only: run_step_params)
  have "region_closed s1 (set (visited ?s2))" using d e m c2 by (rule region_closed_mono)
  moreover have "set (visited s1) \<subseteq> set (visited ?s2)"
    using v run_step_visited_grows [of pt g2 s2] by auto
  moreover have "pt \<in> set (visited ?s2)" by (rule run_step_marks)
  ultimately have v': "set (visited ?s1) \<subseteq> set (visited ?s2)" by (rule run_step_within)
  have n': "set (NOISE ?s2) \<subseteq> set (NOISE ?s1)"
  proof (cases "pt \<notin> set (visited s2) \<and> \<not> core s2 pt")
    case True
    then have "pt \<notin> set (visited s1)" using v by blast
    moreover have "\<not> core s1 pt"
      using True regionQuery_mono(2) [OF d e, of pt] m by (simp add: core_def)
    ultimately show ?thesis using True n by (auto simp: run_step_NOISE)
  next
    case False
    then have "NOISE ?s2 = NOISE s2" by (simp add: run_step_NOISE)
    then show ?thesis using n by (auto simp: run_step_NOISE)
  qed
  from f v' n' c2' show ?thesis by (simp add: coupled_def)
qed

lemma run_loop_coupled:
  "coupled (snd gs1) (snd gs2) \<Longrightarrow> coupled (snd (run_loop xs gs1)) (snd (run_loop xs gs2))"
proof (induction xs arbitrary: gs1 gs2)
  case Nil
  then show ?case by simp
next
  case (Cons pt xs)
  obtain g1 s1 g2 s2 where gs: "gs1 = (g1, s1)" "gs2 = (g2, s2)" by (cases gs1; cases gs2)
  from Cons.prems have "coupled (snd (run_step pt gs1)) (snd (run_step pt gs2))"
    unfolding gs by (simp add: run_step_coupled)
  from Cons.IH [OF this] show ?case by simp
qed

subsection \<open>Further facts about single steps\<close>

text \<open>
  The cluster scan at the end of an expansion iteration adds \<open>p\<close> to \<open>C\<close> whenever \<open>p\<close> is
  not yet in \<open>C\<close>, whether or not an earlier cluster holds it: here the point \<open>p\<close>, which
  is not a core point, lies in the regions of the core points \<open>q1\<close> and \<open>q2\<close> and ends up
  in both clusters.
\<close>

lemma run_ex_border:
  "run 0 (DBSCAN_init ex_border 1 4) =
     ([\<lparr>cid = 0, pts = [(''q1'', 0, 0), (''a1'', -1, 0), (''a2'', 0, 1), (''p'', 1, 0)]\<rparr>,
       \<lparr>cid = 1, pts = [(''q2'', 2, 0), (''p'', 1, 0), (''b1'', 3, 0), (''b2'', 2, 1)]\<rparr>], [])"
  by code_simp

lemma extendNeighborhoodPts_new:
  "\<exists>zs. extendNeighborhoodPts ns nbrs = nbrs @ zs \<and> distinct zs \<and> set zs \<inter> set nbrs = {}"
proof (induction ns arbitrary: nbrs)
  case Nil
  show ?case by simp
next
  case (Cons n ns)
  show ?case
  proof (cases "n \<in> set nbrs")
    case True
    with Cons.IH [of nbrs] show ?thesis by simp
  next
    case False
    from Cons.IH [of "nbrs @ [n]"] obtain zs where
      zs: "extendNeighborhoodPts ns (nbrs @ [n]) = (nbrs @ [n]) @ zs" "distinct zs"
        "set zs \<inter> set (nbrs @ [n]) = {}" by blast
    have "extendNeighborhoodPts (n # ns) nbrs = nbrs @ (n # zs)" using False zs(1) by simp
    moreover have "distinct (n # zs)" using zs(2,3) by auto
    moreover have "set (n # zs) \<inter> set nbrs = {}" using False zs(3) by auto
    ultimately show ?thesis by blast
  qed
qed

lemma expand_step_nbrs_new:
  "take (length nbrs) (fst (expand_step i nbrs ci s)) = nbrs \<and>
   distinct (drop (length nbrs) (fst (expand_step i nbrs ci s))) \<and>
   set (drop (length nbrs) (fst (expand_step i nbrs ci s))) \<inter> set nbrs = {}"
proof -
  obtain zs where "extendNeighborhoodPts (regionQuery s (nbrs ! i)) nbrs = nbrs @ zs"
    "distinct zs" "set zs \<inter> set nbrs = {}"
    using extendNeighborhoodPts_new by blast
  then show ?thesis by (simp add: expand_step_nbrs)
qed

section \<open>The claims\<close>




text \<open>
  C2 (counterexample). With \<open>eps = -1\<close> and \<open>minPts = 0\<close> the engine is built and \<open>run\<close>
  returns a cluster for the single input point: nothing is rejected.
\<close>

theorem invalid_parameters_counterexample:
  "(-1::real) < 0 \<and> (0::int) < 1 \<and>
   run 0 (DBSCAN_init [(''A'', 0, 0)] (-1) 0) = ([\<lparr>cid = 0, pts = [(''A'', 0, 0)]\<rparr>], [])"
  by code_simp

text \<open>
  C2 (amended). The engine does not validate its parameters. With \<open>eps < 0\<close> or
  \<open>minPts < 1\<close> the constructor builds the engine and \<open>run\<close> scans the dataset as for any
  other parameters: a negative \<open>eps\<close> acts as its absolute value, with \<open>minPts < 1\<close> the
  noise list stays empty, and for a non-empty dataset the output is not empty.
\<close>

theorem invalid_parameters_accepted:
  assumes "e < 0 \<or> m < 1"
  shows "run g (DBSCAN_init ds e m) = run g (DBSCAN_init ds \<bar>e\<bar> m) \<and>
         (m < 1 \<longrightarrow> snd (run g (DBSCAN_init ds e m)) = []) \<and>
         (ds \<noteq> [] \<longrightarrow> fst (run g (DBSCAN_init ds e m)) \<noteq> []
                       \<or> snd (run g (DBSCAN_init ds e m)) \<noteq> [])"
proof -
  let ?s = "snd (run_state g (DBSCAN_init ds e m))"
  have 1: "run g (DBSCAN_init ds e m) = run g (DBSCAN_init ds \<bar>e\<bar> m)"
    by (simp add: DBSCAN_init_def)
  have 2: "snd (run g (DBSCAN_init ds e m)) = []" if "m < 1"
  proof -
    have "\<forall>pt \<in> set (D (DBSCAN_init ds e m)). minPts (snd (g, DBSCAN_init ds e m))
       \<le> int (length (regionQuery (snd (g, DBSCAN_init ds e m)) pt))"
      using that by (simp add: DBSCAN_init_def)
    from run_loop_all_core_NOISE [OF this] show ?thesis
      by (simp add: run_def run_state_def DBSCAN_init_def)
  qed
  have 3: "fst (run g (DBSCAN_init ds e m)) \<noteq> [] \<or> snd (run g (DBSCAN_init ds e m)) \<noteq> []"
    if "ds \<noteq> []"
  proof -
    have c: "consistent ?s"
      by (rule run_state_consistent) (rule DBSCAN_init_consistent)
    have "set (visited ?s) = set ds"
      using run_state_visited [OF DBSCAN_init_consistent, of g ds e m]
      by (simp add: DBSCAN_init_def)
    with c have "set (NOISE ?s) \<union> clustered ?s = set ds"
      unfolding consistent_def by blast
    with that have "set (NOISE ?s) \<union> clustered ?s \<noteq> {}" by simp
    then show ?thesis by (auto simp: run_def clustered_def)
  qed
  from 1 2 3 show ?thesis by blast
qed

theorem invalid_parameters_accepted_witness:
  "((-1::real) < 0 \<or> (0::int) < 1) \<and> (0::int) < 1 \<and> [(''A'', 0, 0)] \<noteq> ([] :: point list) \<and>
   run 0 (DBSCAN_init [(''A'', 0, 0)] (-1) 0) = run 0 (DBSCAN_init [(''A'', 0, 0)] \<bar>-1\<bar> 0) \<and>
   snd (run 0 (DBSCAN_init [(''A'', 0, 0)] (-1) 0)) = [] \<and>
   fst (run 0 (DBSCAN_init [(''A'', 0, 0)] (-1) 0)) \<noteq> []"
proof -
  have "run 0 (DBSCAN_init [(''A'', 0, 0)] (-1) 0) = ([\<lparr>cid = 0, pts = [(''A'', 0, 0)]\<rparr>], [])"
    by code_simp
  then show ?thesis
    using invalid_parameters_accepted [of "-1" 0 0 "[(''A'', 0, 0)]"] by simp
qed



text \<open>
  C4. Two runs on the same dataset and parameters, started at any two values \<open>g1\<close>, \<open>g2\<close>
  of the cluster id counter, return the same sequence of member lists and the same
  noise list. Calling \<open>run\<close> a second time on the engine a run has left behind returns
  the very same result. The cluster ids are the values of the counter, \<open>g\<close>, \<open>g + 1\<close>,
  ... in the order of creation, so they do depend on where the counter started.
\<close>

theorem run_deterministic:
  "map pts (fst (run g1 (DBSCAN_init ds e m))) = map pts (fst (run g2 (DBSCAN_init ds e m))) \<and>
   snd (run g1 (DBSCAN_init ds e m)) = snd (run g2 (DBSCAN_init ds e m)) \<and>
   run g2 (snd (run_state g1 (DBSCAN_init ds e m))) = run g1 (DBSCAN_init ds e m) \<and>
   map cid (fst (run g1 (DBSCAN_init ds e m)))
     = map (\<lambda>k. g1 + int k) [0..<length (fst (run g1 (DBSCAN_init ds e m)))]"
proof -
  let ?s = "DBSCAN_init ds e m"
  have "forget_ids (snd (run_state g1 ?s)) = forget_ids (snd (run_state g2 ?s))"
    unfolding run_state_def by (rule run_loop_forget) simp
  then have "Clusters (forget_ids (snd (run_state g1 ?s))) = Clusters (forget_ids (snd (run_state g2 ?s)))"
    and n: "NOISE (forget_ids (snd (run_state g1 ?s))) = NOISE (forget_ids (snd (run_state g2 ?s)))"
    by simp_all
  then have "map pts (map forget_cid (Clusters (snd (run_state g1 ?s))))
      = map pts (map forget_cid (Clusters (snd (run_state g2 ?s))))" by simp
  then have c: "map pts (Clusters (snd (run_state g1 ?s))) = map pts (Clusters (snd (run_state g2 ?s)))"
    by (simp add: comp_def)
  let ?t = "snd (run_state g1 ?s)"
  have "D ?t = D ?s" using run_loop_fields [of "D ?s" "(g1, ?s)"] by (simp add: run_state_def)
  moreover have "set (D ?s) \<subseteq> set (visited ?t)"
    unfolding run_state_def by (rule run_loop_marks)
  ultimately have "run_loop (D ?t) (g2, ?t) = (g2, ?t)"
    by (intro run_loop_all_visited) simp
  then have "run g2 ?t = run g1 ?s" by (simp add: run_def run_state_def)
  with c n run_ids [of g1 ds e m] show ?thesis by (simp add: run_def)
qed

text \<open>
  C5. For thresholds \<open>0 \<le> eps1 \<le> eps2\<close> and the same dataset and \<open>minPts\<close>, the noise
  list returned with \<open>eps2\<close> is not longer than the one returned with \<open>eps1\<close>; indeed every
  noise point for \<open>eps2\<close> is a noise point for \<open>eps1\<close>.
\<close>

theorem noise_monotone_in_eps:
  assumes "0 \<le> e1" and "e1 \<le> e2"
  shows "length (snd (run g2 (DBSCAN_init ds e2 m))) \<le> length (snd (run g1 (DBSCAN_init ds e1 m))) \<and>
         set (snd (run g2 (DBSCAN_init ds e2 m))) \<subseteq> set (snd (run g1 (DBSCAN_init ds e1 m)))"
proof -
  let ?s1 = "DBSCAN_init ds e1 m" and ?s2 = "DBSCAN_init ds e2 m"
  let ?t1 = "snd (run_state g1 ?s1)" and ?t2 = "snd (run_state g2 ?s2)"
  have "e1 * e1 \<le> e2 * e2" using assms by (intro mult_mono) simp_all
  then have "coupled (snd (g1, ?s1)) (snd (g2, ?s2))"
    by (simp add: coupled_def DBSCAN_init_def region_closed_def)
  then have "coupled (snd (run_loop ds (g1, ?s1))) (snd (run_loop ds (g2, ?s2)))"
    by (rule run_loop_coupled)
  then have "coupled ?t1 ?t2" by (simp add: run_state_def DBSCAN_init_def)
  then have sub: "set (NOISE ?t2) \<subseteq> set (NOISE ?t1)" by (simp add: coupled_def)
  have "consistent ?t2" by (rule run_state_consistent) (rule DBSCAN_init_consistent)
  then have "distinct (NOISE ?t2)" unfolding consistent_def by blast
  then have "length (NOISE ?t2) = card (set (NOISE ?t2))" by (simp add: distinct_card)
  also have "\<dots> \<le> card (set (NOISE ?t1))" using sub by (simp add: card_mono)
  also have "\<dots> \<le> length (NOISE ?t1)" by (rule card_length)
  finally show ?thesis using sub by (simp add: run_def)
qed

theorem noise_monotone_in_eps_witness:
  "(0::real) \<le> 1 / 2 \<and> (1 / 2 :: real) \<le> 3 / 2 \<and>
   snd (run 0 (DBSCAN_init ex_scenario (1 / 2) 2)) = ex_scenario \<and>
   snd (run 0 (DBSCAN_init ex_scenario (3 / 2) 2)) = [(''D'', 10, 10)] \<and>
   length (snd (run 0 (DBSCAN_init ex_scenario (3 / 2) 2)))
     \<le> length (snd (run 0 (DBSCAN_init ex_scenario (1 / 2) 2)))"
proof -
  have a: "snd (run 0 (DBSCAN_init ex_scenario (1 / 2) 2)) = ex_scenario"
    by code_simp
  have b: "snd (run 0 (DBSCAN_init ex_scenario (3 / 2) 2)) = [(''D'', 10, 10)]"
    by code_simp
  have h: "(0::real) \<le> 1 / 2" "(1 / 2 :: real) \<le> 3 / 2" by simp_all
  from noise_monotone_in_eps [OF h, of 0 ex_scenario 2 0] a b show ?thesis by simp
qed

text \<open>
  C6. A seed \<open>pt\<close> that is not yet visited: if its region holds \<open>minPts\<close> points or more,
  the scan step leaves the noise list as it is and appends one new cluster, which has
  the current counter as its id and \<open>pt\<close> as its first member, after the clusters that
  were there; if the region holds \<open>minPts - 1\<close> points or fewer, the step appends \<open>pt\<close>
  to the noise list and leaves the cluster list as it is.
\<close>

theorem seed_core_or_noise:
  assumes "pt \<notin> set (visited s)"
  shows "(minPts s \<le> int (length (regionQuery s pt)) \<longrightarrow>
            NOISE (snd (run_step pt (g, s))) = NOISE s \<and>
            length (Clusters (snd (run_step pt (g, s)))) = Suc (length (Clusters s)) \<and>
            take (length (Clusters s)) (Clusters (snd (run_step pt (g, s)))) = Clusters s \<and>
            cid (last (Clusters (snd (run_step pt (g, s))))) = g \<and>
            pt \<in> set (pts (last (Clusters (snd (run_step pt (g, s))))))) \<and>
         (int (length (regionQuery s pt)) \<le> minPts s - 1 \<longrightarrow>
            NOISE (snd (run_step pt (g, s))) = NOISE s @ [pt] \<and>
            Clusters (snd (run_step pt (g, s))) = Clusters s)"
proof (cases rule: run_step_cases [where pt = pt and s = s and g = g])
  case visited
  with assms show ?thesis by simp
next
  case noise
  then show ?thesis by simp
next
  case core
  let ?n = "length (Clusters s)"
  let ?s = "snd (run_step pt (g, s))"
  have "new_cluster_at ?n g pt (Clusters s) (Clusters (seeded g pt s))"
    by (simp add: new_cluster_at_def)
  then have nc: "new_cluster_at ?n g pt (Clusters s) (Clusters ?s)"
    unfolding core(3) by (simp add: expand_loop_new_cluster)
  then have len: "length (Clusters ?s) = Suc ?n" and tk: "take ?n (Clusters ?s) = Clusters s"
    and id: "cid (Clusters ?s ! ?n) = g" and ne: "pts (Clusters ?s ! ?n) \<noteq> []"
    and h: "hd (pts (Clusters ?s ! ?n)) = pt"
    by (simp_all add: new_cluster_at_def)
  from len have "Clusters ?s \<noteq> []" by auto
  then have l: "last (Clusters ?s) = Clusters ?s ! ?n"
    using len by (simp add: last_conv_nth)
  have "hd (pts (Clusters ?s ! ?n)) \<in> set (pts (Clusters ?s ! ?n))"
    using ne by (rule hd_in_set)
  then have m: "pt \<in> set (pts (last (Clusters ?s)))"
    by (simp only: l h)
  have i: "cid (last (Clusters ?s)) = g" by (simp only: l id)
  have no: "NOISE ?s = NOISE s" using core(2) by (rule run_step_core_NOISE)
  have "\<not> int (length (regionQuery s pt)) \<le> minPts s - 1" using core(2) by simp
  with no len tk i m show ?thesis by blast
qed

theorem seed_core_or_noise_witness:
  "(''A'', 0, 0) \<notin> set (visited (DBSCAN_init ex_line 1 3)) \<and>
   int (length (regionQuery (DBSCAN_init ex_line 1 3) (''A'', 0, 0))) \<le> minPts (DBSCAN_init ex_line 1 3) - 1 \<and>
   NOISE (snd (run_step (''A'', 0, 0) (0, DBSCAN_init ex_line 1 3))) = [(''A'', 0, 0)] \<and>
   (''B'', 1, 0) \<notin> set (visited ex_engine) \<and>
   minPts ex_engine \<le> int (length (regionQuery ex_engine (''B'', 1, 0))) \<and>
   length (Clusters (snd (run_step (''B'', 1, 0) (0, ex_engine)))) = 1 \<and>
   (''B'', 1, 0) \<in> set (pts (last (Clusters (snd (run_step (''B'', 1, 0) (0, ex_engine))))))"
proof -
  have a: "(''A'', 0, 0) \<notin> set (visited (DBSCAN_init ex_line 1 3))"
    by (simp add: DBSCAN_init_def)
  have b: "int (length (regionQuery (DBSCAN_init ex_line 1 3) (''A'', 0, 0)))
      \<le> minPts (DBSCAN_init ex_line 1 3) - 1"
    by (simp add: DBSCAN_init_def regionQuery_def ex_line_def)
  have c: "(''B'', 1, 0) \<notin> set (visited ex_engine)"
    by (simp add: ex_engine_def DBSCAN_init_def)
  have d: "minPts ex_engine \<le> int (length (regionQuery ex_engine (''B'', 1, 0)))"
    by (simp add: ex_engine_def DBSCAN_init_def regionQuery_def ex_line_def)
  have e: "NOISE (DBSCAN_init ex_line 1 3) = []" "Clusters ex_engine = []"
    by (simp_all add: ex_engine_def DBSCAN_init_def)
  from seed_core_or_noise [OF a, of 0] seed_core_or_noise [OF c, of 0] a b c d e
  show ?thesis by simp
qed

text \<open>
  C7. \<open>run\<close> terminates: with a budget of \<open>length D\<close> iterations for every expansion
  loop the engine returns, and returns the result of \<open>run\<close>. An iteration of the
  expansion loop only appends to the neighbour list, and only points that are not in it
  and that differ from each other; the neighbour list that an expansion started by the
  scan works on never gets longer than the dataset. A scan step only appends to the
  visited list, and the visited list never gets longer than the number of distinct points
  of the dataset.
\<close>

theorem run_terminates:
  "run_fuel (length ds) g (DBSCAN_init ds e m) = Some (run g (DBSCAN_init ds e m)) \<and>
   expand_fuel (length (D s)) 0 (regionQuery s pt) ci s
     = Some (expand_loop 0 (regionQuery s pt) ci s) \<and>
   length (fst (expand_loop 0 (regionQuery s pt) ci s)) \<le> length (D s) \<and>
   take (length nbrs) (fst (expand_step i nbrs ci s)) = nbrs \<and>
   distinct (drop (length nbrs) (fst (expand_step i nbrs ci s))) \<and>
   set (drop (length nbrs) (fst (expand_step i nbrs ci s))) \<inter> set nbrs = {} \<and>
   take (length (visited s)) (visited (snd (run_step pt (g, s)))) = visited s \<and>
   length (visited (snd (run_loop (take k ds) (g, DBSCAN_init ds e m)))) \<le> length (remdups ds)"
proof -
  let ?s0 = "DBSCAN_init ds e m"
  have 1: "run_fuel (length ds) g ?s0 = Some (run g ?s0)"
    by (rule run_fuel_enough) (simp add: DBSCAN_init_def)
  have 2: "expand_fuel (length (D s)) 0 (regionQuery s pt) ci s
     = Some (expand_loop 0 (regionQuery s pt) ci s)"
    by (rule expand_fuel_enough) (simp_all add: regionQuery_mset)
  have "mset (fst (expand_loop 0 (regionQuery s pt) ci s)) \<subseteq># mset (D s)"
    by (rule expand_loop_mset) (rule regionQuery_mset)
  then have 3: "length (fst (expand_loop 0 (regionQuery s pt) ci s)) \<le> length (D s)"
    by (rule mset_length_le)
  let ?t = "snd (run_loop (take k ds) (g, ?s0))"
  have "consistent ?t"
    by (rule run_loop_consistent)
      (simp_all add: DBSCAN_init_consistent, simp add: DBSCAN_init_def set_take_subset)
  then have "length (visited ?t) \<le> length (remdups (D ?t))" by (rule consistent_visited_bound)
  moreover have "D ?t = ds"
    using run_loop_fields [of "take k ds" "(g, ?s0)"] by (simp add: DBSCAN_init_def)
  ultimately have 4: "length (visited ?t) \<le> length (remdups ds)" by simp
  from 1 2 3 4 run_step_visited_prefix [of s pt g] expand_step_nbrs_new [of nbrs i ci s]
  show ?thesis by blast
qed



text \<open>
  C9. The constructor stores \<open>eps * eps\<close>, so the engines built with \<open>- eps\<close> and with
  \<open>eps\<close> are the same engine and \<open>run\<close> returns the same clusters and noise list.
\<close>

theorem eps_sign_unobservable:
  "DBSCAN_init ds (- e) m = DBSCAN_init ds e m \<and>
   run g (DBSCAN_init ds (- e) m) = run g (DBSCAN_init ds e m)"
  by (simp add: DBSCAN_init_def)

text \<open>
  C10. With \<open>minPts \<le> 1\<close> the noise list returned by \<open>run\<close> is empty. The stored
  threshold \<open>eps * eps\<close> is never negative, so the statement does not need \<open>eps \<ge> 0\<close>.
\<close>

theorem minPts_le_1_no_noise:
  assumes "m \<le> 1"
  shows "snd (run g (DBSCAN_init ds e m)) = []"
proof -
  let ?s = "DBSCAN_init ds e m"
  have "minPts ?s \<le> int (length (regionQuery ?s pt))" if "pt \<in> set ds" for pt
  proof -
    have "pt \<in> set (regionQuery ?s pt)"
      using that by (intro regionQuery_self) (simp_all add: DBSCAN_init_def)
    then have "0 < length (regionQuery ?s pt)" by (rule length_pos_if_in_set)
    then have "1 \<le> int (length (regionQuery ?s pt))" by linarith
    moreover have "minPts ?s = m" by (simp add: DBSCAN_init_def)
    ultimately show ?thesis using assms by linarith
  qed
  then have "\<forall>pt \<in> set (D ?s). minPts (snd (g, ?s))
       \<le> int (length (regionQuery (snd (g, ?s)) pt))"
    by (simp add: DBSCAN_init_def)
  from run_loop_all_core_NOISE [OF this] show ?thesis
    by (simp add: run_def run_state_def DBSCAN_init_def)
qed

theorem minPts_le_1_no_noise_witness:
  "(1::int) \<le> 1 \<and> snd (run 0 (DBSCAN_init ex_line 1 1)) = [] \<and>
   fst (run 0 (DBSCAN_init ex_line 1 1))
     = [\<lparr>cid = 0, pts = [(''A'', 0, 0), (''B'', 1, 0), (''C'', 2, 0)]\<rparr>]"
proof -
  have "fst (run 0 (DBSCAN_init ex_line 1 1))
     = [\<lparr>cid = 0, pts = [(''A'', 0, 0), (''B'', 1, 0), (''C'', 2, 0)]\<rparr>]"
    by code_simp
  then show ?thesis using minPts_le_1_no_noise [of 1 0 ex_line 1] by simp
qed

end
